theory Spec2Isabelle
  imports Main
begin

section \<open>Evil Hangman: the candidate-list update and the turn loop of \<^verbatim>\<open>hangman.py\<close>\<close>

text \<open>
  Words and guesses are Python \<^verbatim>\<open>str\<close> values, modelled as \<^typ>\<open>string\<close>. Python
  has no character type: iterating over a word yields strings of length one, so a
  character \<open>c\<close> of a word is compared with a guess \<open>ltr\<close> as \<open>ltr = [c]\<close>.
  Characters are 8-bit. The codes below 128 are classified as Python 3 classifies the
  ASCII characters; the codes from 128 on are taken as neither letters nor white space,
  and \<^verbatim>\<open>lower\<close> leaves them as they are. Outside ASCII Python's \<^verbatim>\<open>str.lower\<close> can
  also change the length of a string, so whatever the loop tests after \<^verbatim>\<open>.lower()\<close>
  is stated below on the lower-cased line, never on the line as typed.
\<close>

datatype error = ValueError | IndexError | EOFError

subsection \<open>\<^verbatim>\<open>update_words\<close>\<close>

text \<open>\<^verbatim>\<open>idxs = [i for i, c in enumerate(word) if ltr == c]\<close>\<close>

definition idxs_of :: "string \<Rightarrow> string \<Rightarrow> nat list" where
  "idxs_of ltr word = [i. (i, c) \<leftarrow> enumerate 0 word, ltr = [c]]"

text \<open>
  \<^verbatim>\<open>families\<close> is a \<^verbatim>\<open>defaultdict(list)\<close>: an association list in order of first
  insertion of each key (the iteration order of a Python 3.7 dict).
  \<^verbatim>\<open>families[key].append(word)\<close> extends the list under an existing key and otherwise
  adds the key, with the one-word list, at the end.
\<close>

fun fam_append :: "nat list \<Rightarrow> string \<Rightarrow> (nat list \<times> string list) list
    \<Rightarrow> (nat list \<times> string list) list" where
  "fam_append k w [] = [(k, [w])]"
| "fam_append k w ((k', ws) # fams) =
     (if k = k' then (k', ws @ [w]) # fams else (k', ws) # fam_append k w fams)"

definition families_of :: "string list \<Rightarrow> string \<Rightarrow> (nat list \<times> string list) list" where
  "families_of legal_words ltr =
     foldl (\<lambda>families word. fam_append (idxs_of ltr word) word families) [] legal_words"

text \<open>\<^verbatim>\<open>max(...)\<close> over a generator: \<^verbatim>\<open>ValueError\<close> when it yields nothing.\<close>

definition py_max :: "nat list \<Rightarrow> error + nat" where
  "py_max ns = (case ns of [] \<Rightarrow> Inl ValueError | n # ms \<Rightarrow> Inr (fold max ms n))"

text \<open>
  \<^verbatim>\<open>random.choice(seq)\<close> is \<^verbatim>\<open>seq[i]\<close> for a random index \<open>i\<close> below
  \<^verbatim>\<open>len(seq)\<close>, and \<^verbatim>\<open>IndexError\<close> on an empty sequence. The draw is the explicit
  argument \<open>r\<close>, reduced modulo the length: every index below the length can be drawn,
  and no other.
\<close>

definition choice :: "nat \<Rightarrow> 'a list \<Rightarrow> error + 'a" where
  "choice r seq = (if seq = [] then Inl IndexError else Inr (seq ! (r mod length seq)))"

text \<open>
  The body of \<^verbatim>\<open>update_words\<close> up to the draw: the family (key and words) bound to
  \<^verbatim>\<open>fam_with_fewest_match\<close>. \<^verbatim>\<open>sorted\<close> is stable, as \<^const>\<open>sort_key\<close> is.
\<close>

definition fam_with_fewest_match :: "string list \<Rightarrow> string \<Rightarrow> nat
    \<Rightarrow> error + (nat list \<times> string list)" where
  "fam_with_fewest_match legal_words ltr r =
     (let families = families_of legal_words ltr in
      case py_max (map (\<lambda>(f_idxs, f_words). length f_words) families) of
        Inl e \<Rightarrow> Inl e
      | Inr longest_fam_len \<Rightarrow>
          (let longest_fams =
                 filter (\<lambda>(f_idxs, f_words). length f_words = longest_fam_len) families;
               fams_with_fewest_match = sort_key (\<lambda>f. length (fst f)) longest_fams
           in choice r fams_with_fewest_match))"

text \<open>\<^verbatim>\<open>_, legal_words = fam_with_fewest_match; return legal_words\<close>\<close>

definition update_words :: "string list \<Rightarrow> string \<Rightarrow> nat \<Rightarrow> error + string list" where
  "update_words legal_words ltr r =
     (case fam_with_fewest_match legal_words ltr r of
        Inl e \<Rightarrow> Inl e
      | Inr (f_idxs, f_words) \<Rightarrow> Inr f_words)"

subsection \<open>\<^verbatim>\<open>get_words\<close>\<close>

text \<open>
  \<^verbatim>\<open>str.lower\<close>, \<^verbatim>\<open>str.isalpha\<close> (false on the empty string) and \<^verbatim>\<open>str.strip\<close>
  on ASCII: letters are \<open>A\<close>--\<open>Z\<close> (codes 65--90) and \<open>a\<close>--\<open>z\<close> (97--122); white
  space is the space character (32), the codes 9--13 and, as in Python 3, the separators
  28--31.
\<close>

definition lower_chr :: "char \<Rightarrow> char" where
  "lower_chr c =
     (let n = (of_char c :: nat) in if 65 \<le> n \<and> n \<le> 90 then char_of (n + 32) else c)"

definition lower :: "string \<Rightarrow> string" where
  "lower s = map lower_chr s"

definition isalpha_chr :: "char \<Rightarrow> bool" where
  "isalpha_chr c =
     (let n = (of_char c :: nat) in (65 \<le> n \<and> n \<le> 90) \<or> (97 \<le> n \<and> n \<le> 122))"

definition isalpha :: "string \<Rightarrow> bool" where
  "isalpha s = (s \<noteq> [] \<and> list_all isalpha_chr s)"

definition isspace_chr :: "char \<Rightarrow> bool" where
  "isspace_chr c =
     (let n = (of_char c :: nat) in n = 32 \<or> (9 \<le> n \<and> n \<le> 13) \<or> (28 \<le> n \<and> n \<le> 31))"

definition strip :: "string \<Rightarrow> string" where
  "strip s = rev (dropWhile isspace_chr (rev (dropWhile isspace_chr s)))"

definition py_min :: "nat list \<Rightarrow> error + nat" where
  "py_min ns = (case ns of [] \<Rightarrow> Inl ValueError | n # ms \<Rightarrow> Inr (fold min ms n))"

text \<open>
  \<^verbatim>\<open>prompt_int\<close> asks until the line typed reads as an integer, and takes the default
  for an empty line. Its caller sees only the result, so the answer is an argument:
  \<open>None\<close> for the empty line, \<open>Some n\<close> for the integer typed.
\<close>

definition prompt_int :: "int option \<Rightarrow> int \<Rightarrow> int" where
  "prompt_int answer dflt = (case answer of None \<Rightarrow> dflt | Some n \<Rightarrow> n)"

text \<open>
  \<^verbatim>\<open>get_words\<close>, from the lines of the word file and the answer to its prompt. The
  minimum and maximum length go into the prompt (and the default) only; on a file with
  no line they raise.
\<close>

definition get_words :: "string list \<Rightarrow> int option \<Rightarrow> error + string list" where
  "get_words lines answer =
     (let words = map strip lines in
      case py_min (map length words) of
        Inl e \<Rightarrow> Inl e
      | Inr min_len \<Rightarrow>
          (case py_max (map length words) of
             Inl e \<Rightarrow> Inl e
           | Inr max_len \<Rightarrow>
               (let suggest = min max_len 5;
                    word_len = prompt_int answer (int suggest)
                in Inr [lower w. w \<leftarrow> words, isalpha w \<and> int (length w) = word_len])))"

subsection \<open>\<^verbatim>\<open>play\<close>\<close>

record session =
  words :: "string list"
  nguesses_left :: int
  guessed_letters :: "string set"

text \<open>
  What one pass through the loop body does: the two \<^verbatim>\<open>continue\<close> branches that
  reject the input, a correct guess (ending the game or not) and a wrong guess (ending
  the game or not).
\<close>

datatype outcome = Bad_Length | Repeated | Hit | Won | Miss | Lost

text \<open>The strings of length one that iterating over a word yields (\<^verbatim>\<open>set(word)\<close>).\<close>

definition chars :: "string \<Rightarrow> string list" where
  "chars word = map (\<lambda>c. [c]) word"

text \<open>
  One pass through the body of the \<^verbatim>\<open>while True\<close> loop, on the line typed and the
  draw that \<^verbatim>\<open>random.choice\<close> makes in it. \<^verbatim>\<open>ltr in word\<close> is a substring test; for
  the one-character \<open>ltr\<close> that reaches it, it is membership in \<open>chars word\<close>.
\<close>

definition play_turn :: "session \<Rightarrow> string \<Rightarrow> nat \<Rightarrow> error + (outcome \<times> session)" where
  "play_turn st inp r =
     (let ltr = lower inp in
      if length ltr \<noteq> 1 then Inr (Bad_Length, st)
      else if ltr \<in> guessed_letters st then Inr (Repeated, st)
      else
        (let guessed = insert ltr (guessed_letters st) in
         case update_words (words st) ltr r of
           Inl e \<Rightarrow> Inl e
         | Inr ws \<Rightarrow>
             (case ws of
                [] \<Rightarrow> Inl IndexError
              | word # _ \<Rightarrow>
                  if ltr \<in> set (chars word) then
                    (if set (chars word) - guessed = {}
                     then Inr (Won, st\<lparr>words := ws, guessed_letters := guessed\<rparr>)
                     else Inr (Hit, st\<lparr>words := ws, guessed_letters := guessed\<rparr>))
                  else
                    (let n = nguesses_left st - 1 in
                     if n = 0
                     then Inr (Lost, st\<lparr>words := ws, nguesses_left := n,
                                 guessed_letters := guessed\<rparr>)
                     else Inr (Miss, st\<lparr>words := ws, nguesses_left := n,
                                 guessed_letters := guessed\<rparr>)))))"

text \<open>
  The loop, over the lines typed (each with the draw of its turn): it ends at the first
  \<^verbatim>\<open>break\<close>, and \<^verbatim>\<open>input\<close> raises \<^verbatim>\<open>EOFError\<close> when no line is left.
\<close>

fun play_loop :: "session \<Rightarrow> (string \<times> nat) list \<Rightarrow> error + (outcome \<times> session)" where
  "play_loop st [] = Inl EOFError"
| "play_loop st ((inp, r) # rest) =
     (case play_turn st inp r of
        Inl e \<Rightarrow> Inl e
      | Inr (out, st') \<Rightarrow>
          if out = Won \<or> out = Lost then Inr (out, st') else play_loop st' rest)"

definition new_session :: "string list \<Rightarrow> int \<Rightarrow> session" where
  "new_session ws n = \<lparr>words = ws, nguesses_left = n, guessed_letters = {}\<rparr>"

definition play :: "string list \<Rightarrow> int option \<Rightarrow> int option \<Rightarrow> (string \<times> nat) list
    \<Rightarrow> error + (outcome \<times> session)" where
  "play lines len_answer guesses_answer inputs =
     (case get_words lines len_answer of
        Inl e \<Rightarrow> Inl e
      | Inr ws \<Rightarrow> play_loop (new_session ws (prompt_int guesses_answer 10)) inputs)"

subsection \<open>Sessions that the loop can reach\<close>

text \<open>
  The states of the loop, from a first state \<open>st0\<close>, each with the log of the guesses
  accepted so far (latest first): the guess as compared (\<^verbatim>\<open>ltr\<close>), the key of the
  family that \<^verbatim>\<open>update_words\<close> chose for it, and what the turn printed. A rejected
  line leaves state and log as they are; after a \<^verbatim>\<open>break\<close> no turn follows.
\<close>

type_synonym log = "(string \<times> nat list \<times> outcome) list"

fun finished :: "log \<Rightarrow> bool" where
  "finished [] = False"
| "finished ((ltr, f_idxs, out) # h) = (out = Won \<or> out = Lost)"

definition rejected :: "outcome \<Rightarrow> bool" where
  "rejected out = (out = Bad_Length \<or> out = Repeated)"

inductive reachable :: "session \<Rightarrow> log \<Rightarrow> session \<Rightarrow> bool" for st0 :: session where
  start: "reachable st0 [] st0"
| reject: "reachable st0 h st \<Longrightarrow> \<not> finished h \<Longrightarrow> play_turn st inp r = Inr (out, st')
     \<Longrightarrow> rejected out \<Longrightarrow> reachable st0 h st'"
| accept: "reachable st0 h st \<Longrightarrow> \<not> finished h \<Longrightarrow> play_turn st inp r = Inr (out, st')
     \<Longrightarrow> \<not> rejected out
     \<Longrightarrow> fam_with_fewest_match (words st) (lower inp) r = Inr (f_idxs, f_words)
     \<Longrightarrow> reachable st0 ((lower inp, f_idxs, out) # h) st'"

text \<open>The definitions a concrete run is evaluated with.\<close>

lemmas hangman_defs =
  play_def new_session_def play_turn_def get_words_def py_min_def py_max_def prompt_int_def
  strip_def isspace_chr_def isalpha_def isalpha_chr_def lower_def lower_chr_def
  update_words_def fam_with_fewest_match_def families_of_def idxs_of_def choice_def
  enumerate_eq_zip chars_def rejected_def char_of_def bit_Suc_0_iff Let_def

section \<open>Families\<close>

text \<open>
  The keys of \<^verbatim>\<open>families\<close> are distinct, and the words under a key are the words of
  the input with that key, in the input's order.
\<close>

lemma fam_append_keys:
  "map fst (fam_append k w fams) =
     (if k \<in> fst ` set fams then map fst fams else map fst fams @ [k])"
  by (induction fams) force+

lemma fam_append_map_of:
  "map_of (fam_append k w fams) =
     (map_of fams)(k \<mapsto> (case map_of fams k of None \<Rightarrow> [w] | Some ws \<Rightarrow> ws @ [w]))"
  by (induction fams) (auto simp: fun_eq_iff)

lemma fam_append_not_Nil: "fam_append k w fams \<noteq> []"
  by (induction k w fams rule: fam_append.induct) simp_all

lemma families_of_Nil: "families_of [] ltr = []"
  by (simp add: families_of_def)

lemma families_of_snoc:
  "families_of (ws @ [w]) ltr = fam_append (idxs_of ltr w) w (families_of ws ltr)"
  by (simp add: families_of_def)

lemma families_of_distinct: "distinct (map fst (families_of ws ltr))"
  by (induction ws rule: rev_induct)
    (simp_all add: families_of_Nil families_of_snoc fam_append_keys)

lemma families_of_map_of:
  "map_of (families_of ws ltr) k =
     (if filter (\<lambda>w. idxs_of ltr w = k) ws = [] then None
      else Some (filter (\<lambda>w. idxs_of ltr w = k) ws))"
  by (induction ws rule: rev_induct)
    (auto simp: families_of_Nil families_of_snoc fam_append_map_of
      split: option.splits if_splits)

lemma families_of_mem:
  "(k, fws) \<in> set (families_of ws ltr) \<longleftrightarrow>
     fws = filter (\<lambda>w. idxs_of ltr w = k) ws \<and> fws \<noteq> []"
proof -
  have "(k, fws) \<in> set (families_of ws ltr) \<longleftrightarrow> map_of (families_of ws ltr) k = Some fws"
    using families_of_distinct by simp
  then show ?thesis
    by (auto simp: families_of_map_of)
qed

lemma families_of_eq_Nil: "families_of ws ltr = [] \<longleftrightarrow> ws = []"
  by (cases ws rule: rev_cases)
    (simp_all add: families_of_Nil families_of_snoc fam_append_not_Nil)

lemma py_max_Max: "ns \<noteq> [] \<Longrightarrow> py_max ns = Inr (Max (set ns))"
  by (cases ns) (simp_all add: py_max_def Max.set_eq_fold [symmetric] del: set_simps)

lemma choice_mem: "seq \<noteq> [] \<Longrightarrow> \<exists>x \<in> set seq. choice r seq = Inr x"
  by (simp add: choice_def)

text \<open>
  On a non-empty list \<^verbatim>\<open>update_words\<close> raises nothing, and the family it draws is one
  of \<^verbatim>\<open>families\<close> that no other family is longer than.
\<close>

lemma fam_with_fewest_match_longest:
  assumes "legal_words \<noteq> []"
  shows "\<exists>f_idxs f_words.
    fam_with_fewest_match legal_words ltr r = Inr (f_idxs, f_words) \<and>
    (f_idxs, f_words) \<in> set (families_of legal_words ltr) \<and>
    (\<forall>k ws. (k, ws) \<in> set (families_of legal_words ltr) \<longrightarrow> length ws \<le> length f_words)"
proof -
  define fams where "fams = families_of legal_words ltr"
  define lens where "lens = map (\<lambda>(f_idxs, f_words). length f_words) fams"
  define m where "m = Max (set lens)"
  define longest where "longest = filter (\<lambda>(f_idxs, f_words). length f_words = m) fams"
  from assms have ne: "lens \<noteq> []"
    by (simp add: lens_def fams_def families_of_eq_Nil)
  then have mx: "py_max lens = Inr m"
    unfolding m_def by (rule py_max_Max)
  from ne have "m \<in> set lens"
    unfolding m_def by (intro Max_in) auto
  then obtain g where g: "g \<in> set fams" "length (snd g) = m"
    by (auto simp: lens_def)
  then have "g \<in> set longest"
    by (simp add: longest_def case_prod_beta)
  then have "sort_key (\<lambda>f. length (fst f)) longest \<noteq> []"
    by (metis empty_iff empty_set set_sort)
  from choice_mem [OF this, of r] obtain f where
    f: "f \<in> set longest" "choice r (sort_key (\<lambda>f. length (fst f)) longest) = Inr f"
    by auto
  obtain p fw where pf: "f = (p, fw)" by (cases f)
  from f(2) mx have 1: "fam_with_fewest_match legal_words ltr r = Inr (p, fw)"
    by (simp add: fam_with_fewest_match_def pf fams_def [symmetric] lens_def [symmetric]
        longest_def [symmetric])
  from f(1) have 2: "(p, fw) \<in> set fams" and len: "length fw = m"
    by (auto simp: pf longest_def)
  have 3: "length ws \<le> length fw" if "(k, ws) \<in> set fams" for k ws
  proof -
    from that have "length ws \<in> set lens" by (force simp: lens_def)
    then show ?thesis unfolding len m_def by (intro Max_ge) auto
  qed
  from 1 2 3 show ?thesis unfolding fams_def by blast
qed

text \<open>The key of a word is the list of the positions at which the guess stands in it.\<close>

lemma idxs_of_set: "set (idxs_of ltr word) = {i. i < length word \<and> ltr = [word ! i]}"
  by (auto simp: idxs_of_def enumerate_eq_zip set_zip)

lemma idxs_of_Nil_iff: "idxs_of ltr word = [] \<longleftrightarrow> ltr \<notin> set (chars word)"
proof -
  have "idxs_of ltr word = [] \<longleftrightarrow> set (idxs_of ltr word) = {}" by simp
  also have "\<dots> \<longleftrightarrow> ltr \<notin> set (chars word)"
    unfolding idxs_of_set by (force simp: chars_def in_set_conv_nth)
  finally show ?thesis .
qed

lemma update_words_cell:
  assumes "legal_words \<noteq> []"
  shows "\<exists>f_idxs f_words.
    fam_with_fewest_match legal_words ltr r = Inr (f_idxs, f_words) \<and>
    update_words legal_words ltr r = Inr f_words \<and>
    f_words = filter (\<lambda>w. idxs_of ltr w = f_idxs) legal_words \<and>
    f_words \<noteq> [] \<and>
    (\<forall>k. length (filter (\<lambda>w. idxs_of ltr w = k) legal_words) \<le> length f_words)"
proof -
  from fam_with_fewest_match_longest [OF assms, of ltr r] obtain p fw where
    1: "fam_with_fewest_match legal_words ltr r = Inr (p, fw)" and
    2: "(p, fw) \<in> set (families_of legal_words ltr)" and
    3: "\<And>k ws. (k, ws) \<in> set (families_of legal_words ltr) \<Longrightarrow> length ws \<le> length fw"
    by blast
  from 1 have 4: "update_words legal_words ltr r = Inr fw"
    by (simp add: update_words_def)
  from 2 have 5: "fw = filter (\<lambda>w. idxs_of ltr w = p) legal_words" and 6: "fw \<noteq> []"
    by (auto simp: families_of_mem)
  have 7: "length (filter (\<lambda>w. idxs_of ltr w = k) legal_words) \<le> length fw" for k
  proof (cases "filter (\<lambda>w. idxs_of ltr w = k) legal_words = []")
    case True
    then show ?thesis by simp
  next
    case False
    then have "(k, filter (\<lambda>w. idxs_of ltr w = k) legal_words) \<in> set (families_of legal_words ltr)"
      by (simp add: families_of_mem)
    then show ?thesis by (rule 3)
  qed
  from 1 4 5 6 7 show ?thesis by blast
qed

section \<open>The family that \<^verbatim>\<open>update_words\<close> returns\<close>

text \<open>
  Claim C2. On a non-empty list of candidates \<^verbatim>\<open>update_words\<close> returns, whatever the
  draw, one cell of the partition by occurrence pattern: the words of the input whose
  key is the key of the family drawn, so every returned word has the guess at exactly the
  positions of that key; and no cell of the partition is longer than the one returned.
\<close>

theorem partition_cell_maximal:
  assumes "legal_words \<noteq> []"
  shows "\<exists>f_idxs f_words.
    fam_with_fewest_match legal_words ltr r = Inr (f_idxs, f_words) \<and>
    update_words legal_words ltr r = Inr f_words \<and>
    f_words \<noteq> [] \<and>
    f_words = filter (\<lambda>w. idxs_of ltr w = f_idxs) legal_words \<and>
    (\<forall>w \<in> set f_words. \<forall>i < length w. ltr = [w ! i] \<longleftrightarrow> i \<in> set f_idxs) \<and>
    (\<forall>k. length (filter (\<lambda>w. idxs_of ltr w = k) legal_words) \<le> length f_words)"
proof -
  from update_words_cell [OF assms, of ltr r] obtain p fw where
    1: "fam_with_fewest_match legal_words ltr r = Inr (p, fw)"
      "update_words legal_words ltr r = Inr fw"
      "fw = filter (\<lambda>w. idxs_of ltr w = p) legal_words"
      "fw \<noteq> []"
      "\<And>k. length (filter (\<lambda>w. idxs_of ltr w = k) legal_words) \<le> length fw"
    by blast
  have "ltr = [w ! i] \<longleftrightarrow> i \<in> set p" if "w \<in> set fw" "i < length w" for w i
  proof -
    from that(1) 1(3) have "idxs_of ltr w = p" by simp
    then have "set p = {i. i < length w \<and> ltr = [w ! i]}"
      using idxs_of_set by metis
    with that(2) show ?thesis by simp
  qed
  with 1 show ?thesis by blast
qed

theorem partition_cell_maximal_witness:
  "[''foo'', ''off'', ''moo'', ''ore'', ''cat'', ''dog''] \<noteq> [] \<and>
   fam_with_fewest_match [''foo'', ''off'', ''moo'', ''ore'', ''cat'', ''dog''] ''o'' 0
     = Inr ([0], [''off'', ''ore'']) \<and>
   (\<exists>f_idxs f_words.
    fam_with_fewest_match [''foo'', ''off'', ''moo'', ''ore'', ''cat'', ''dog''] ''o'' 0
      = Inr (f_idxs, f_words) \<and>
    f_words = filter (\<lambda>w. idxs_of ''o'' w = f_idxs)
      [''foo'', ''off'', ''moo'', ''ore'', ''cat'', ''dog''] \<and>
    (\<forall>k. length (filter (\<lambda>w. idxs_of ''o'' w = k)
      [''foo'', ''off'', ''moo'', ''ore'', ''cat'', ''dog'']) \<le> length f_words))"
proof -
  have ne: "[''foo'', ''off'', ''moo'', ''ore'', ''cat'', ''dog''] \<noteq> []"
    by simp
  have ev: "fam_with_fewest_match [''foo'', ''off'', ''moo'', ''ore'', ''cat'', ''dog''] ''o'' 0
     = Inr ([0], [''off'', ''ore''])"
    by (simp add: hangman_defs)
  from partition_cell_maximal [OF ne, of "''o''" 0] ne ev show ?thesis
    by blast
qed


section \<open>One turn\<close>

text \<open>
  A rejected line changes nothing. An accepted one is a one-character guess (after
  \<^verbatim>\<open>lower\<close>) not yet in \<^verbatim>\<open>guessed_letters\<close>; it replaces the candidates by the
  family drawn, adds the guess, and takes one from \<^verbatim>\<open>nguesses_left\<close> exactly when the
  guess is not in the first word of that family.
\<close>

lemma lower_chr_idem: "lower_chr (lower_chr c) = lower_chr c"
  by (simp add: lower_chr_def Let_def)

lemma lower_idem: "lower (lower s) = lower s"
  by (simp add: lower_def lower_chr_idem)

lemma play_turn_rejected:
  "play_turn st inp r = Inr (out, st') \<Longrightarrow> rejected out \<Longrightarrow> st' = st"
  by (auto simp: play_turn_def rejected_def Let_def update_words_def
      split: if_splits sum.splits list.splits)

lemma play_turn_accepted:
  assumes "play_turn st inp r = Inr (out, st')" and "\<not> rejected out"
  shows "length (lower inp) = 1 \<and> lower inp \<notin> guessed_letters st \<and>
    update_words (words st) (lower inp) r = Inr (words st') \<and> words st' \<noteq> [] \<and>
    guessed_letters st' = insert (lower inp) (guessed_letters st) \<and>
    ((out = Hit \<or> out = Won) \<and> lower inp \<in> set (chars (hd (words st'))) \<and>
       nguesses_left st' = nguesses_left st \<or>
     (out = Miss \<or> out = Lost) \<and> lower inp \<notin> set (chars (hd (words st'))) \<and>
       nguesses_left st' = nguesses_left st - 1 \<and> (out = Lost \<longleftrightarrow> nguesses_left st' = 0))"
  using assms
  by (auto simp: play_turn_def rejected_def Let_def split: if_splits sum.splits list.splits)


lemma fam_with_fewest_match_Nil: "fam_with_fewest_match [] ltr r = Inl ValueError"
  by (simp add: fam_with_fewest_match_def families_of_Nil py_max_def)

lemma update_words_Nil: "update_words [] ltr r = Inl ValueError"
  by (simp add: update_words_def fam_with_fewest_match_Nil)

lemma accepted_family:
  assumes "play_turn st inp r = Inr (out, st')" and "\<not> rejected out"
    and "fam_with_fewest_match (words st) (lower inp) r = Inr (f_idxs, f_words)"
  shows "words st' = f_words" and "words st \<noteq> []" and "f_words \<noteq> []"
    and "f_words = filter (\<lambda>w. idxs_of (lower inp) w = f_idxs) (words st)"
proof -
  from assms(1,2) have "update_words (words st) (lower inp) r = Inr (words st')"
    by (simp add: play_turn_accepted)
  with assms(3) show 1: "words st' = f_words"
    by (simp add: update_words_def)
  from assms(3) show 2: "words st \<noteq> []"
    by (auto simp: fam_with_fewest_match_Nil)
  from update_words_cell [OF 2, of "lower inp" r] assms(3)
  show "f_words \<noteq> []" and "f_words = filter (\<lambda>w. idxs_of (lower inp) w = f_idxs) (words st)"
    by auto
qed

section \<open>Invariants of the reachable sessions\<close>

lemma reachable_guessed:
  "reachable st0 h st \<Longrightarrow> guessed_letters st = guessed_letters st0 \<union> fst ` set h"
proof (induction rule: reachable.induct)
  case start
  show ?case by simp
next
  case (reject h st inp r out st')
  then have "st' = st" by (blast dest: play_turn_rejected)
  with reject show ?case by simp
next
  case (accept h st inp r out st' f_idxs f_words)
  from accept.hyps(3,4) have "guessed_letters st' = insert (lower inp) (guessed_letters st)"
    by (simp add: play_turn_accepted)
  with accept.IH show ?case by simp
qed

lemma reachable_subset: "reachable st0 h st \<Longrightarrow> set (words st) \<subseteq> set (words st0)"
proof (induction rule: reachable.induct)
  case start
  show ?case by simp
next
  case (reject h st inp r out st')
  then have "st' = st" by (blast dest: play_turn_rejected)
  with reject show ?case by simp
next
  case (accept h st inp r out st' f_idxs f_words)
  from accepted_family(1,4) [OF accept.hyps(3,4,5)] have "set (words st') \<subseteq> set (words st)"
    by auto
  with accept.IH show ?case by simp
qed

lemma reachable_nonempty:
  "reachable st0 h st \<Longrightarrow> words st0 \<noteq> [] \<or> h \<noteq> [] \<Longrightarrow> words st \<noteq> []"
proof (induction rule: reachable.induct)
  case start
  then show ?case by simp
next
  case (reject h st inp r out st')
  then have "st' = st" by (blast dest: play_turn_rejected)
  with reject show ?case by simp
next
  case (accept h st inp r out st' f_idxs f_words)
  from accept.hyps(3,4) show ?case by (simp add: play_turn_accepted)
qed

lemma reachable_log:
  "reachable st0 h st \<Longrightarrow> (ltr, f_idxs, out) \<in> set h \<Longrightarrow>
     length ltr = 1 \<and> lower ltr = ltr \<and>
     (\<forall>w \<in> set (words st). idxs_of ltr w = f_idxs) \<and>
     ((out = Hit \<or> out = Won) \<and> f_idxs \<noteq> [] \<or> (out = Miss \<or> out = Lost) \<and> f_idxs = [])"
proof (induction rule: reachable.induct)
  case start
  then show ?case by simp
next
  case (reject h st inp r out' st')
  then have "st' = st" by (blast dest: play_turn_rejected)
  with reject show ?case by simp
next
  case (accept h st inp r out' st' p f_words)
  note fam = accepted_family [OF accept.hyps(3,4,5)]
  note acc = play_turn_accepted [OF accept.hyps(3,4)]
  show ?case
  proof (cases "(ltr, f_idxs, out) = (lower inp, p, out')")
    case True
    from fam have key: "\<forall>w \<in> set (words st'). idxs_of (lower inp) w = p"
      by auto
    from fam(1,3) have "hd (words st') \<in> set (words st')"
      by simp
    with key have "idxs_of (lower inp) (hd (words st')) = p"
      by blast
    then have "p = [] \<longleftrightarrow> lower inp \<notin> set (chars (hd (words st')))"
      using idxs_of_Nil_iff by metis
    with acc key True show ?thesis
      by (auto simp: lower_idem)
  next
    case False
    with accept.prems have "(ltr, f_idxs, out) \<in> set h"
      by auto
    from accept.IH [OF this] fam(1,4) show ?thesis
      by auto
  qed
qed


text \<open>A session reached by one accepted guess, for the examples below.\<close>

lemma reachable_example:
  "reachable (new_session [''cat'', ''dog''] 2) [(''a'', [], Miss)]
     \<lparr>words = [''dog''], nguesses_left = 1, guessed_letters = {''a''}\<rparr>"
proof -
  have "play_turn (new_session [''cat'', ''dog''] 2) ''A'' 0 =
      Inr (Miss, \<lparr>words = [''dog''], nguesses_left = 1, guessed_letters = {''a''}\<rparr>)"
    by (simp add: hangman_defs)
  moreover have "\<not> rejected Miss"
    by (simp add: rejected_def)
  moreover have "fam_with_fewest_match (words (new_session [''cat'', ''dog''] 2)) (lower ''A'') 0
      = Inr ([], [''dog''])"
    by (simp add: hangman_defs)
  moreover have "lower ''A'' = ''a''"
    by (simp add: hangman_defs)
  ultimately show ?thesis
    using reachable.accept [OF reachable.start, of "new_session [''cat'', ''dog''] 2" "''A''" 0]
    by simp
qed

text \<open>With more than one family, some word of the input is outside any given family.\<close>

lemma families_of_more:
  assumes "1 < length (families_of ws ltr)"
  shows "\<exists>w \<in> set ws. idxs_of ltr w \<noteq> k"
proof -
  from assms obtain a b rest where fams: "families_of ws ltr = a # b # rest"
    by (cases "families_of ws ltr" rule: remdups_adj.cases) auto
  with families_of_distinct [of ws ltr] have ne: "fst a \<noteq> fst b"
    by simp
  have mem: "\<exists>w \<in> set ws. idxs_of ltr w = fst f" if "f \<in> set (families_of ws ltr)" for f
  proof -
    from that have "(fst f, snd f) \<in> set (families_of ws ltr)"
      by simp
    then have "filter (\<lambda>w. idxs_of ltr w = fst f) ws \<noteq> []"
      unfolding families_of_mem by auto
    then show ?thesis
      by (auto simp: filter_empty_conv)
  qed
  from mem [of a] mem [of b] fams obtain wa wb where
    "wa \<in> set ws" "idxs_of ltr wa = fst a" "wb \<in> set ws" "idxs_of ltr wb = fst b"
    by auto
  with ne show ?thesis
    by metis
qed

text \<open>When every word has the same key, there is one family, and it is drawn.\<close>

lemma families_of_single:
  assumes "ws \<noteq> []" and "\<forall>w \<in> set ws. idxs_of ltr w = k"
  shows "families_of ws ltr = [(k, ws)]"
  using assms
proof (induction ws rule: rev_induct)
  case Nil
  then show ?case by simp
next
  case (snoc w ws)
  show ?case
  proof (cases "ws = []")
    case True
    with snoc.prems show ?thesis
      by (simp add: families_of_def)
  next
    case False
    with snoc have "families_of ws ltr = [(k, ws)]"
      by simp
    with snoc.prems show ?thesis
      by (simp add: families_of_snoc)
  qed
qed

lemma fam_with_fewest_match_single:
  assumes "families_of ws ltr = [(k, fws)]"
  shows "fam_with_fewest_match ws ltr r = Inr (k, fws)"
  using assms by (simp add: fam_with_fewest_match_def py_max_def choice_def)

text \<open>The guessed letters of a reachable session are lower-case strings of length one.\<close>

lemma reachable_guessed_letter:
  assumes "reachable (new_session ws n) h st" and "ltr \<in> guessed_letters st"
  shows "length ltr = 1 \<and> lower ltr = ltr"
proof -
  from reachable_guessed [OF assms(1)] assms(2) obtain f_idxs out where
    "(ltr, f_idxs, out) \<in> set h"
    by (auto simp: new_session_def)
  from reachable_log [OF assms(1) this] show ?thesis
    by simp
qed

text \<open>The session with no candidates.\<close>

lemma play_turn_no_words:
  "play_turn (new_session [] n) inp r =
     (if length (lower inp) = 1 then Inl ValueError else Inr (Bad_Length, new_session [] n))"
  by (simp add: play_turn_def new_session_def update_words_Nil)

lemma play_loop_no_words:
  "play_loop (new_session [] n) inputs =
     (if list_ex (\<lambda>(inp, r). length (lower inp) = 1) inputs
      then Inl ValueError else Inl EOFError)"
  by (induction inputs) (auto simp: play_turn_no_words)

text \<open>From a session with no candidates no guess is accepted, and the session stays.\<close>

lemma reachable_no_words:
  "reachable st0 h st \<Longrightarrow> words st0 = [] \<Longrightarrow> h = [] \<and> st = st0"
proof (induction rule: reachable.induct)
  case start
  show ?case by simp
next
  case (reject h st inp r out st')
  then have "st' = st" by (blast dest: play_turn_rejected)
  with reject show ?case by simp
next
  case (accept h st inp r out st' f_idxs f_words)
  from accept.IH [OF accept.prems] accept.prems have "words st = []"
    by simp
  with play_turn_accepted [OF accept.hyps(3,4)] show ?case
    by (simp add: update_words_Nil)
qed

lemma get_words_total:
  "lines \<noteq> [] \<Longrightarrow> \<exists>ws. get_words lines answer = Inr ws"
  by (cases lines) (simp_all add: get_words_def py_min_def py_max_def Let_def)

text \<open>From a count of zero or less, no turn ends in a loss.\<close>

lemma play_turn_below_one:
  assumes "play_turn st inp r = Inr (out, st')" and "nguesses_left st \<le> 0"
  shows "out \<noteq> Lost \<and> nguesses_left st' \<le> 0 \<and>
    nguesses_left st' = (if out = Miss then nguesses_left st - 1 else nguesses_left st)"
proof (cases "rejected out")
  case True
  with assms(1) have "st' = st"
    by (rule play_turn_rejected)
  with True assms(2) show ?thesis
    by (auto simp: rejected_def)
next
  case False
  from play_turn_accepted [OF assms(1) False] assms(2) show ?thesis
    by auto
qed

lemma play_loop_below_one:
  "nguesses_left st0 \<le> 0 \<Longrightarrow> play_loop st0 inputs \<noteq> Inr (Lost, st)"
proof (induction inputs arbitrary: st0)
  case Nil
  show ?case by simp
next
  case (Cons a inputs)
  obtain inp r where a: "a = (inp, r)"
    by (cases a)
  show ?case
  proof (cases "play_turn st0 inp r")
    case (Inl e)
    with a show ?thesis by simp
  next
    case (Inr res)
    obtain out st' where res: "res = (out, st')"
      by (cases res)
    from play_turn_below_one [OF Inr [unfolded res] Cons.prems] have
      "out \<noteq> Lost" and "nguesses_left st' \<le> 0"
      by simp_all
    with Cons.IH [of st'] a Inr res show ?thesis
      by auto
  qed
qed

lemma reachable_below_one:
  "reachable st0 h st \<Longrightarrow> nguesses_left st0 \<le> 0 \<Longrightarrow>
     nguesses_left st =
       nguesses_left st0 - int (length (filter (\<lambda>(ltr, f_idxs, out). out = Miss) h)) \<and>
     (\<forall>(ltr, f_idxs, out) \<in> set h. out \<noteq> Lost)"
proof (induction rule: reachable.induct)
  case start
  show ?case by simp
next
  case (reject h st inp r out st')
  then have "st' = st" by (blast dest: play_turn_rejected)
  with reject show ?case by simp
next
  case (accept h st inp r out st' f_idxs f_words)
  from accept.IH [OF accept.prems] accept.prems have "nguesses_left st \<le> 0"
    by simp
  from play_turn_below_one [OF accept.hyps(3) this] accept.IH [OF accept.prems]
  show ?case
    by auto
qed

lemma reachable_example_zero:
  "reachable (new_session [''cat'', ''dog''] 0) [(''a'', [], Miss)]
     \<lparr>words = [''dog''], nguesses_left = - 1, guessed_letters = {''a''}\<rparr>"
proof -
  have "play_turn (new_session [''cat'', ''dog''] 0) ''A'' 0 =
      Inr (Miss, \<lparr>words = [''dog''], nguesses_left = - 1, guessed_letters = {''a''}\<rparr>)"
    by (simp add: hangman_defs)
  moreover have "\<not> rejected Miss"
    by (simp add: rejected_def)
  moreover have "fam_with_fewest_match (words (new_session [''cat'', ''dog''] 0)) (lower ''A'') 0
      = Inr ([], [''dog''])"
    by (simp add: hangman_defs)
  moreover have "lower ''A'' = ''a''"
    by (simp add: hangman_defs)
  ultimately show ?thesis
    using reachable.accept [OF reachable.start, of "new_session [''cat'', ''dog''] 0" "''A''" 0]
    by simp
qed

text \<open>What the loop returns is a reachable session, reached by a turn that ended the game.\<close>

lemma play_loop_reachable:
  "reachable st0 h st1 \<Longrightarrow> \<not> finished h \<Longrightarrow> play_loop st1 inputs = Inr (out, st) \<Longrightarrow>
     \<exists>ltr f_idxs h'. reachable st0 ((ltr, f_idxs, out) # h') st \<and> (out = Won \<or> out = Lost)"
proof (induction inputs arbitrary: h st1)
  case Nil
  then show ?case by simp
next
  case (Cons a inputs)
  obtain inp r where a: "a = (inp, r)"
    by (cases a)
  from Cons.prems(3) a obtain out' st' where
    turn: "play_turn st1 inp r = Inr (out', st')"
    by (cases "play_turn st1 inp r") auto
  show ?case
  proof (cases "rejected out'")
    case True
    with Cons.prems(1,2) turn have "reachable st0 h st'"
      by (blast intro: reachable.reject)
    moreover from True Cons.prems(3) a turn have "play_loop st' inputs = Inr (out, st)"
      by (auto simp: rejected_def)
    ultimately show ?thesis
      using Cons.prems(2) by (blast intro: Cons.IH)
  next
    case False
    from play_turn_accepted [OF turn False] obtain f_idxs where
      "fam_with_fewest_match (words st1) (lower inp) r = Inr (f_idxs, words st')"
      by (auto simp: update_words_def split: sum.splits)
    with Cons.prems(1,2) turn False
    have step: "reachable st0 ((lower inp, f_idxs, out') # h) st'"
      by (blast intro: reachable.accept)
    show ?thesis
    proof (cases "out' = Won \<or> out' = Lost")
      case True
      with Cons.prems(3) a turn have "out = out'" and "st = st'"
        by auto
      with step True show ?thesis
        by blast
    next
      case False
      with Cons.prems(3) a turn have "play_loop st' inputs = Inr (out, st)"
        by auto
      moreover from False have "\<not> finished ((lower inp, f_idxs, out') # h)"
        by simp
      ultimately show ?thesis
        using step by (blast intro: Cons.IH)
    qed
  qed
qed

section \<open>The candidates over a session\<close>

text \<open>
  Claim C3, as stated, asks for a non-empty candidate list in every reachable session.
  \<^verbatim>\<open>get_words\<close> returns the empty list when no word has the length asked for, and
  \<^verbatim>\<open>play\<close> starts the loop on it: the first session of that run has no candidate.
\<close>

theorem session_starts_without_candidates:
  "get_words [''cat'', ''dog''] (Some 5) = Inr [] \<and>
   play [''cat'', ''dog''] (Some 5) None [(''ab'', 0)] =
     play_loop (new_session [] 10) [(''ab'', 0)] \<and>
   reachable (new_session [] 10) [] (new_session [] 10) \<and>
   words (new_session [] 10) = []"
proof -
  have "get_words [''cat'', ''dog''] (Some 5) = Inr []"
    by (simp add: hangman_defs)
  moreover from this
  have "play [''cat'', ''dog''] (Some 5) None [(''ab'', 0)] =
      play_loop (new_session [] 10) [(''ab'', 0)]"
    by (simp add: play_def prompt_int_def)
  moreover have "reachable (new_session [] 10) [] (new_session [] 10)"
    by (rule reachable.start)
  moreover have "words (new_session [] 10) = []"
    by (simp add: new_session_def)
  ultimately show ?thesis
    by blast
qed

text \<open>
  Claim C3, amended. On a non-empty list of candidates \<^verbatim>\<open>update_words\<close> returns a
  non-empty list, for every guess and every draw. So the candidate list of a reachable
  session is non-empty when the session started with a non-empty one, and in any case
  after an accepted guess. A session that started with no candidate accepts no guess and
  stays as it started, with no candidate.
\<close>

theorem candidates_never_empty:
  "(legal_words \<noteq> [] \<longrightarrow> (\<exists>ws. update_words legal_words ltr r = Inr ws \<and> ws \<noteq> [])) \<and>
   (reachable st0 h st \<and> (words st0 \<noteq> [] \<or> h \<noteq> []) \<longrightarrow> words st \<noteq> []) \<and>
   (reachable st0 h st \<and> words st0 = [] \<longrightarrow> h = [] \<and> st = st0)"
proof (intro conjI impI)
  assume "legal_words \<noteq> []"
  from update_words_cell [OF this, of ltr r]
  show "\<exists>ws. update_words legal_words ltr r = Inr ws \<and> ws \<noteq> []"
    by blast
next
  assume "reachable st0 h st \<and> (words st0 \<noteq> [] \<or> h \<noteq> [])"
  then show "words st \<noteq> []"
    by (blast dest: reachable_nonempty)
next
  assume a: "reachable st0 h st \<and> words st0 = []"
  with reachable_no_words [of st0 h st] show "h = []" and "st = st0"
    by simp_all
qed

theorem candidates_never_empty_witness:
  "[''cat'', ''dog''] \<noteq> [] \<and>
   (\<exists>ws. update_words [''cat'', ''dog''] ''a'' 0 = Inr ws \<and> ws \<noteq> []) \<and>
   reachable (new_session [''cat'', ''dog''] 2) [(''a'', [], Miss)]
     \<lparr>words = [''dog''], nguesses_left = 1, guessed_letters = {''a''}\<rparr> \<and>
   words (new_session [''cat'', ''dog''] 2) \<noteq> [] \<and>
   words \<lparr>words = [''dog''], nguesses_left = 1, guessed_letters = {''a''}\<rparr> \<noteq> [] \<and>
   reachable (new_session [] 10) [] (new_session [] 10) \<and>
   words (new_session [] 10) = []"
proof -
  have 1: "words (new_session [''cat'', ''dog''] 2) \<noteq> []"
    by (simp add: new_session_def)
  have 2: "words (new_session [] 10) = []"
    by (simp add: new_session_def)
  have 3: "reachable (new_session [] 10) [] (new_session [] 10)"
    by (rule reachable.start)
  from candidates_never_empty [of "[''cat'', ''dog'']" "''a''" 0
      "new_session [''cat'', ''dog''] 2" "[(''a'', [], Miss)]"
      "\<lparr>words = [''dog''], nguesses_left = 1, guessed_letters = {''a''}\<rparr>"]
    reachable_example 1 2 3
  show ?thesis
    by simp
qed

text \<open>
  Claim C4. In a session reached from a new one, the guessed letters are the letters of
  the log, and every remaining candidate has each of them at exactly the positions of the
  key recorded when it was guessed: the turn was a hit when that key has a position and a
  miss when it has none.
\<close>

theorem candidates_consistent_with_guesses:
  assumes "reachable (new_session ws n) h st"
  shows "guessed_letters st = fst ` set h \<and>
    (\<forall>(ltr, f_idxs, out) \<in> set h.
       (\<forall>w \<in> set (words st).
          idxs_of ltr w = f_idxs \<and> (\<forall>i < length w. ltr = [w ! i] \<longleftrightarrow> i \<in> set f_idxs)) \<and>
       ((out = Hit \<or> out = Won) \<and> f_idxs \<noteq> [] \<or> (out = Miss \<or> out = Lost) \<and> f_idxs = []))"
proof (intro conjI ballI)
  from reachable_guessed [OF assms] show "guessed_letters st = fst ` set h"
    by (simp add: new_session_def)
next
  fix e assume e: "e \<in> set h"
  obtain ltr f_idxs out where eq: "e = (ltr, f_idxs, out)"
    by (cases e)
  from reachable_log [OF assms, of ltr f_idxs out] e eq have
    key: "\<forall>w \<in> set (words st). idxs_of ltr w = f_idxs" and
    out: "(out = Hit \<or> out = Won) \<and> f_idxs \<noteq> [] \<or> (out = Miss \<or> out = Lost) \<and> f_idxs = []"
    by simp_all
  have "ltr = [w ! i] \<longleftrightarrow> i \<in> set f_idxs" if "w \<in> set (words st)" "i < length w" for w i
  proof -
    from key that(1) have "set f_idxs = set (idxs_of ltr w)"
      by simp
    with that(2) show ?thesis
      by (simp add: idxs_of_set)
  qed
  with key out show "case e of (ltr, f_idxs, out) \<Rightarrow>
       (\<forall>w \<in> set (words st).
          idxs_of ltr w = f_idxs \<and> (\<forall>i < length w. ltr = [w ! i] \<longleftrightarrow> i \<in> set f_idxs)) \<and>
       ((out = Hit \<or> out = Won) \<and> f_idxs \<noteq> [] \<or> (out = Miss \<or> out = Lost) \<and> f_idxs = [])"
    unfolding eq by simp
qed

theorem candidates_consistent_with_guesses_witness:
  "reachable (new_session [''cat'', ''dog''] 2) [(''a'', [], Miss)]
     \<lparr>words = [''dog''], nguesses_left = 1, guessed_letters = {''a''}\<rparr> \<and>
   guessed_letters \<lparr>words = [''dog''], nguesses_left = 1, guessed_letters = {''a''}\<rparr> = {''a''} \<and>
   idxs_of ''a'' ''dog'' = []"
  using candidates_consistent_with_guesses [OF reachable_example] reachable_example
  by simp

text \<open>
  Claim C5. An accepted turn keeps a part of the candidates: the new list is within the
  old one and is no longer, and it is strictly shorter (as a list and as a set) when the
  guess split the old list into more than one family.
\<close>

theorem candidates_shrink:
  assumes "play_turn st inp r = Inr (out, st')" and "\<not> rejected out"
  shows "set (words st') \<subseteq> set (words st) \<and>
    length (words st') \<le> length (words st) \<and>
    card (set (words st')) \<le> card (set (words st)) \<and>
    (1 < length (families_of (words st) (lower inp)) \<longrightarrow>
       length (words st') < length (words st) \<and>
       card (set (words st')) < card (set (words st)))"
proof -
  from play_turn_accepted [OF assms] have
    upd: "update_words (words st) (lower inp) r = Inr (words st')"
    by simp
  then have "words st \<noteq> []"
    by (auto simp: update_words_Nil)
  from update_words_cell [OF this, of "lower inp" r] upd obtain p where
    cell: "words st' = filter (\<lambda>w. idxs_of (lower inp) w = p) (words st)"
    by auto
  then have sub: "set (words st') \<subseteq> set (words st)"
    by auto
  from cell have len: "length (words st') \<le> length (words st)"
    by simp
  from sub have crd: "card (set (words st')) \<le> card (set (words st))"
    by (simp add: card_mono)
  have strict: "length (words st') < length (words st) \<and>
      card (set (words st')) < card (set (words st))"
    if "1 < length (families_of (words st) (lower inp))"
  proof -
    from families_of_more [OF that, of p] obtain w where
      w: "w \<in> set (words st)" "idxs_of (lower inp) w \<noteq> p"
      by blast
    then have 1: "length (words st') < length (words st)"
      unfolding cell by (intro length_filter_less) auto
    from w have "w \<notin> set (words st')"
      unfolding cell by simp
    with w(1) sub have "set (words st') \<subset> set (words st)"
      by blast
    then have "card (set (words st')) < card (set (words st))"
      by (intro psubset_card_mono) auto
    with 1 show ?thesis ..
  qed
  from sub len crd strict show ?thesis
    by blast
qed

theorem candidates_shrink_witness:
  "play_turn (new_session [''cat'', ''dog''] 2) ''A'' 0 =
      Inr (Miss, \<lparr>words = [''dog''], nguesses_left = 1, guessed_letters = {''a''}\<rparr>) \<and>
   \<not> rejected Miss \<and>
   1 < length (families_of (words (new_session [''cat'', ''dog''] 2)) (lower ''A'')) \<and>
   length (words \<lparr>words = [''dog''], nguesses_left = 1, guessed_letters = {''a''}\<rparr>)
     < length (words (new_session [''cat'', ''dog''] 2)) \<and>
   card (set (words \<lparr>words = [''dog''], nguesses_left = 1, guessed_letters = {''a''}\<rparr>))
     < card (set (words (new_session [''cat'', ''dog''] 2)))"
proof -
  have 1: "play_turn (new_session [''cat'', ''dog''] 2) ''A'' 0 =
      Inr (Miss, \<lparr>words = [''dog''], nguesses_left = 1, guessed_letters = {''a''}\<rparr>)"
    by (simp add: hangman_defs)
  have 2: "\<not> rejected Miss"
    by (simp add: rejected_def)
  have 3: "1 < length (families_of (words (new_session [''cat'', ''dog''] 2)) (lower ''A''))"
    by (simp add: hangman_defs)
  from candidates_shrink [OF 1 2] 1 2 3 show ?thesis
    by blast
qed

text \<open>
  Claim C8. When the guess stands in no candidate, \<^verbatim>\<open>families\<close> is the one family of
  the empty key with all the candidates, \<^verbatim>\<open>update_words\<close> returns the list as it
  was whatever the draw, and the turn (for a one-character guess not made before) is a
  miss: \<^verbatim>\<open>nguesses_left\<close> goes down by exactly one, which ends the game when it
  reaches zero, and only the guessed letters change besides.
\<close>

theorem absent_letter_is_a_miss:
  assumes "words st \<noteq> []" and "lower inp = [c]" and "[c] \<notin> guessed_letters st"
    and "\<forall>w \<in> set (words st). c \<notin> set w"
  shows "families_of (words st) [c] = [([], words st)] \<and>
    update_words (words st) [c] r = Inr (words st) \<and>
    play_turn st inp r =
      Inr (if nguesses_left st - 1 = 0 then Lost else Miss,
           st\<lparr>nguesses_left := nguesses_left st - 1,
              guessed_letters := insert [c] (guessed_letters st)\<rparr>)"
proof -
  from assms(4) have "\<forall>w \<in> set (words st). idxs_of [c] w = []"
    by (auto simp: idxs_of_Nil_iff chars_def)
  with assms(1) have fams: "families_of (words st) [c] = [([], words st)]"
    by (rule families_of_single)
  then have upd: "update_words (words st) [c] r = Inr (words st)"
    by (simp add: update_words_def fam_with_fewest_match_single)
  from assms(1) obtain word rest where ws: "words st = word # rest"
    by (cases "words st") auto
  with assms(4) have "[c] \<notin> set (chars word)"
    by (auto simp: chars_def)
  with assms(2,3) upd ws have "play_turn st inp r =
      Inr (if nguesses_left st - 1 = 0 then Lost else Miss,
           st\<lparr>nguesses_left := nguesses_left st - 1,
              guessed_letters := insert [c] (guessed_letters st)\<rparr>)"
    by (simp add: play_turn_def Let_def)
  with fams upd show ?thesis
    by simp
qed

theorem absent_letter_is_a_miss_witness:
  "words (new_session [''cat'', ''dog''] 2) \<noteq> [] \<and> lower ''X'' = [CHR ''x''] \<and>
   [CHR ''x''] \<notin> guessed_letters (new_session [''cat'', ''dog''] 2) \<and>
   CHR ''x'' \<notin> set ''cat'' \<and> CHR ''x'' \<notin> set ''dog'' \<and>
   update_words [''cat'', ''dog''] ''x'' 7 = Inr [''cat'', ''dog''] \<and>
   play_turn (new_session [''cat'', ''dog''] 2) ''X'' 7 =
     Inr (Miss, \<lparr>words = [''cat'', ''dog''], nguesses_left = 1, guessed_letters = {''x''}\<rparr>)"
proof -
  have 1: "words (new_session [''cat'', ''dog''] 2) \<noteq> []"
    by (simp add: new_session_def)
  have 2: "lower ''X'' = [CHR ''x'']"
    by (simp add: hangman_defs)
  have 3: "[CHR ''x''] \<notin> guessed_letters (new_session [''cat'', ''dog''] 2)"
    by (simp add: new_session_def)
  have 4: "\<forall>w \<in> set (words (new_session [''cat'', ''dog''] 2)). CHR ''x'' \<notin> set w"
    by (simp add: new_session_def)
  from absent_letter_is_a_miss [OF 1 2 3 4, of 7] 1 2 3 show ?thesis
    by (simp add: new_session_def)
qed

text \<open>
  Claim C9. In a session reached from a new one, a line that is a guessed letter, or
  that \<^verbatim>\<open>lower\<close> turns into one, is rejected as a repeat, and the session (guessed
  letters, candidates and \<^verbatim>\<open>nguesses_left\<close>) is returned as it was.
\<close>

theorem repeated_guess_is_rejected:
  assumes "reachable (new_session ws n) h st"
    and "inp \<in> guessed_letters st \<or> lower inp \<in> guessed_letters st"
  shows "play_turn st inp r = Inr (Repeated, st)"
proof -
  have "lower inp \<in> guessed_letters st"
  proof (rule disjE [OF assms(2)])
    assume "inp \<in> guessed_letters st"
    with reachable_guessed_letter [OF assms(1), of inp] show ?thesis
      by simp
  qed
  moreover from reachable_guessed_letter [OF assms(1) this] have "length (lower inp) = 1"
    by simp
  ultimately show ?thesis
    by (simp add: play_turn_def)
qed

theorem repeated_guess_is_rejected_witness:
  "reachable (new_session [''cat'', ''dog''] 2) [(''a'', [], Miss)]
     \<lparr>words = [''dog''], nguesses_left = 1, guessed_letters = {''a''}\<rparr> \<and>
   lower ''A'' \<in> guessed_letters \<lparr>words = [''dog''], nguesses_left = 1, guessed_letters = {''a''}\<rparr> \<and>
   play_turn \<lparr>words = [''dog''], nguesses_left = 1, guessed_letters = {''a''}\<rparr> ''A'' 3 =
     Inr (Repeated, \<lparr>words = [''dog''], nguesses_left = 1, guessed_letters = {''a''}\<rparr>)"
proof -
  have 1: "lower ''A'' \<in>
      guessed_letters \<lparr>words = [''dog''], nguesses_left = 1, guessed_letters = {''a''}\<rparr>"
    by (simp add: hangman_defs)
  then have "''A'' \<in>
      guessed_letters \<lparr>words = [''dog''], nguesses_left = 1, guessed_letters = {''a''}\<rparr> \<or>
    lower ''A'' \<in>
      guessed_letters \<lparr>words = [''dog''], nguesses_left = 1, guessed_letters = {''a''}\<rparr>"
    by (rule disjI2)
  from repeated_guess_is_rejected [OF reachable_example this, of 3] reachable_example 1
  show ?thesis
    by blast
qed

section \<open>What the loop checks, and what it does not\<close>

text \<open>
  Claim C6, as stated, asks that a line which is not one alphabetic character be
  rejected. The loop tests only the length of the lower-cased line: the digit \<^verbatim>\<open>1\<close> is
  taken as a guess, counted as a miss and added to the guessed letters.
\<close>

theorem digit_guess_is_accepted:
  "length ''1'' = 1 \<and> \<not> isalpha ''1'' \<and>
   ''1'' \<notin> guessed_letters (new_session [''cat''] 3) \<and>
   play_turn (new_session [''cat''] 3) ''1'' 0 =
     Inr (Miss, \<lparr>words = [''cat''], nguesses_left = 2, guessed_letters = {''1''}\<rparr>)"
  by (simp add: hangman_defs)

text \<open>
  Claim C6, amended. A line whose lower-cased form is not of length one is rejected, and
  so is a line whose lower-cased form is of length one and is a guessed letter; the two
  are told apart, and the session is returned as it was. Every other line whose
  lower-cased form is of length one, a letter or not, is accepted as a guess (on a
  non-empty candidate list).
\<close>

theorem guess_rejected_by_length_or_repeat:
  "(length (lower inp) \<noteq> 1 \<longrightarrow> play_turn st inp r = Inr (Bad_Length, st)) \<and>
   (length (lower inp) = 1 \<and> lower inp \<in> guessed_letters st \<longrightarrow>
      play_turn st inp r = Inr (Repeated, st)) \<and>
   (length (lower inp) = 1 \<and> lower inp \<notin> guessed_letters st \<and> words st \<noteq> [] \<longrightarrow>
      (\<exists>out st'. play_turn st inp r = Inr (out, st') \<and> \<not> rejected out \<and>
         guessed_letters st' = insert (lower inp) (guessed_letters st)))"
proof (intro conjI impI)
  assume "length (lower inp) \<noteq> 1"
  then show "play_turn st inp r = Inr (Bad_Length, st)"
    by (simp add: play_turn_def)
next
  assume "length (lower inp) = 1 \<and> lower inp \<in> guessed_letters st"
  then show "play_turn st inp r = Inr (Repeated, st)"
    by (simp add: play_turn_def)
next
  assume a: "length (lower inp) = 1 \<and> lower inp \<notin> guessed_letters st \<and> words st \<noteq> []"
  then have "words st \<noteq> []"
    by simp
  from update_words_cell [OF this, of "lower inp" r] obtain ws where
    "update_words (words st) (lower inp) r = Inr ws" and "ws \<noteq> []"
    by blast
  with a show "\<exists>out st'. play_turn st inp r = Inr (out, st') \<and> \<not> rejected out \<and>
      guessed_letters st' = insert (lower inp) (guessed_letters st)"
    by (cases ws) (simp_all add: play_turn_def rejected_def Let_def)
qed

theorem guess_rejected_by_length_or_repeat_witness:
  "length (lower ''ab'') \<noteq> 1 \<and>
   play_turn (new_session [''cat''] 3) ''ab'' 0 = Inr (Bad_Length, new_session [''cat''] 3) \<and>
   length (lower ''A'') = 1 \<and>
   lower ''A'' \<in> guessed_letters \<lparr>words = [''dog''], nguesses_left = 1, guessed_letters = {''a''}\<rparr> \<and>
   play_turn \<lparr>words = [''dog''], nguesses_left = 1, guessed_letters = {''a''}\<rparr> ''A'' 0 =
     Inr (Repeated, \<lparr>words = [''dog''], nguesses_left = 1, guessed_letters = {''a''}\<rparr>) \<and>
   length (lower ''1'') = 1 \<and> lower ''1'' \<notin> guessed_letters (new_session [''cat''] 3) \<and>
   words (new_session [''cat''] 3) \<noteq> [] \<and>
   (\<exists>out st'. play_turn (new_session [''cat''] 3) ''1'' 0 = Inr (out, st') \<and> \<not> rejected out \<and>
      guessed_letters st' = insert (lower ''1'') (guessed_letters (new_session [''cat''] 3)))"
proof -
  have 1: "length (lower ''ab'') \<noteq> 1"
    by (simp add: hangman_defs)
  have 2: "length (lower ''A'') = 1 \<and> lower ''A'' \<in>
      guessed_letters \<lparr>words = [''dog''], nguesses_left = 1, guessed_letters = {''a''}\<rparr>"
    by (simp add: hangman_defs)
  have 3: "length (lower ''1'') = 1 \<and>
      lower ''1'' \<notin> guessed_letters (new_session [''cat''] 3) \<and>
      words (new_session [''cat''] 3) \<noteq> []"
    by (simp add: hangman_defs)
  from 1 2 3
    guess_rejected_by_length_or_repeat [of "''ab''" "new_session [''cat''] 3" 0]
    guess_rejected_by_length_or_repeat [of "''A''"
      "\<lparr>words = [''dog''], nguesses_left = 1, guessed_letters = {''a''}\<rparr>" 0]
    guess_rejected_by_length_or_repeat [of "''1''" "new_session [''cat''] 3" 0]
  show ?thesis
    by blast
qed

text \<open>
  Claim C7, as stated, asks for a failure before play begins when no word has the length
  asked for. \<^verbatim>\<open>get_words\<close> returns the empty list, the loop runs on it and rejects a
  line of two characters as usual, and \<^verbatim>\<open>max\<close> raises inside the first turn that
  reaches \<^verbatim>\<open>update_words\<close>.
\<close>

theorem empty_word_list_starts_a_session:
  "get_words [''cat'', ''dog''] (Some 5) = Inr [] \<and>
   play_turn (new_session [] 10) ''ab'' 0 = Inr (Bad_Length, new_session [] 10) \<and>
   play_turn (new_session [] 10) ''a'' 0 = Inl ValueError \<and>
   play [''cat'', ''dog''] (Some 5) None [(''ab'', 0), (''a'', 0)] = Inl ValueError"
  by (simp add: hangman_defs)

text \<open>
  Claim C7, amended. \<^verbatim>\<open>get_words\<close> raises only on a file with no line. When it
  returns the empty list, \<^verbatim>\<open>play\<close> runs the loop on the session with no candidates:
  lines whose lower-cased form is not of length one are rejected, the first line whose
  lower-cased form is of length one raises \<^verbatim>\<open>ValueError\<close> in \<^verbatim>\<open>update_words\<close>, and
  the input running out before that raises \<^verbatim>\<open>EOFError\<close>.
\<close>

theorem empty_word_list_fails_in_first_turn:
  "(lines \<noteq> [] \<longrightarrow> (\<exists>ws. get_words lines len_answer = Inr ws)) \<and>
   (get_words lines len_answer = Inr [] \<longrightarrow>
      play lines len_answer guesses_answer inputs =
        play_loop (new_session [] (prompt_int guesses_answer 10)) inputs \<and>
      play lines len_answer guesses_answer inputs =
        (if list_ex (\<lambda>(inp, r). length (lower inp) = 1) inputs
         then Inl ValueError else Inl EOFError)) \<and>
   play_turn (new_session [] n) inp r =
     (if length (lower inp) = 1 then Inl ValueError else Inr (Bad_Length, new_session [] n))"
  by (simp add: get_words_total play_def play_loop_no_words play_turn_no_words)

theorem empty_word_list_fails_in_first_turn_witness:
  "[''cat'', ''dog''] \<noteq> [] \<and> get_words [''cat'', ''dog''] (Some 5) = Inr [] \<and>
   play [''cat'', ''dog''] (Some 5) None [(''ab'', 0), (''a'', 0)] =
     play_loop (new_session [] (prompt_int None 10)) [(''ab'', 0), (''a'', 0)] \<and>
   play [''cat'', ''dog''] (Some 5) None [(''ab'', 0), (''a'', 0)] =
     (if list_ex (\<lambda>(inp, r). length (lower inp) = 1) [(''ab'', 0 :: nat), (''a'', 0)]
      then Inl ValueError else Inl EOFError)"
proof -
  have 1: "get_words [''cat'', ''dog''] (Some 5) = Inr []"
    by (simp add: hangman_defs)
  from empty_word_list_fails_in_first_turn [of "[''cat'', ''dog'']" "Some 5" None
      "[(''ab'', 0), (''a'', 0)]"] 1
  show ?thesis
    by blast
qed

section \<open>The draw among the largest families\<close>

text \<open>Every family that no other is longer than is the result of some draw.\<close>

lemma every_longest_family_is_drawn:
  assumes "(k, fws) \<in> set (families_of ws ltr)"
    and "\<And>k' fws'. (k', fws') \<in> set (families_of ws ltr) \<Longrightarrow> length fws' \<le> length fws"
  shows "\<exists>r. fam_with_fewest_match ws ltr r = Inr (k, fws)"
proof -
  define fams where "fams = families_of ws ltr"
  define lens where "lens = map (\<lambda>(f_idxs, f_words). length f_words) fams"
  define longest where
    "longest = filter (\<lambda>(f_idxs, f_words). length f_words = length fws) fams"
  define sorted_fams where "sorted_fams = sort_key (\<lambda>f. length (fst f)) longest"
  from assms(1) have mem: "length fws \<in> set lens"
    by (force simp: lens_def fams_def)
  then have ne: "lens \<noteq> []"
    by auto
  have "Max (set lens) = length fws"
  proof (rule Max_eqI)
    show "finite (set lens)" by simp
    show "y \<le> length fws" if "y \<in> set lens" for y
      using that assms(2) by (auto simp: lens_def fams_def)
    show "length fws \<in> set lens" by (rule mem)
  qed
  with ne have mx: "py_max lens = Inr (length fws)"
    by (simp add: py_max_Max)
  from assms(1) have "(k, fws) \<in> set sorted_fams"
    by (simp add: sorted_fams_def longest_def fams_def)
  then obtain i where i: "i < length sorted_fams" "sorted_fams ! i = (k, fws)"
    by (auto simp: in_set_conv_nth)
  then have "choice i sorted_fams = Inr (k, fws)"
    by (auto simp: choice_def)
  with mx have "fam_with_fewest_match ws ltr i = Inr (k, fws)"
    by (simp add: fam_with_fewest_match_def fams_def [symmetric] lens_def [symmetric]
        longest_def [symmetric] sorted_fams_def [symmetric])
  then show ?thesis ..
qed

text \<open>
  Claim C1 asks that, among the largest families, only those of the fewest positions be
  drawn from. \<^verbatim>\<open>update_words\<close> sorts the largest families by the number of positions
  and then draws from the whole sorted list: on the example of its own comment (in lower
  case, as \<^verbatim>\<open>play\<close> passes words and guesses) the draw
  of index 1 returns the family of the key \<open>[1, 2]\<close>, and only the draw of index 0 the
  family of the key \<open>[0]\<close> that the comment names.
\<close>

theorem draw_ignores_fewest_match:
  "families_of [''foo'', ''off'', ''moo'', ''ore'', ''cat'', ''dog''] ''o'' =
     [([1, 2], [''foo'', ''moo'']), ([0], [''off'', ''ore'']), ([], [''cat'']), ([1], [''dog''])] \<and>
   fam_with_fewest_match [''foo'', ''off'', ''moo'', ''ore'', ''cat'', ''dog''] ''o'' 1 =
     Inr ([1, 2], [''foo'', ''moo'']) \<and>
   update_words [''foo'', ''off'', ''moo'', ''ore'', ''cat'', ''dog''] ''o'' 1 =
     Inr [''foo'', ''moo''] \<and>
   update_words [''foo'', ''off'', ''moo'', ''ore'', ''cat'', ''dog''] ''o'' 0 =
     Inr [''off'', ''ore'']"
  by (simp add: hangman_defs)

section \<open>A guess count of zero\<close>

text \<open>
  Claim C10. \<^verbatim>\<open>play\<close> takes a guess count of zero as it is. From there every miss
  takes \<^verbatim>\<open>nguesses_left\<close> further below zero, the test \<^verbatim>\<open>nguesses_left == 0\<close> never
  holds, and neither the loop nor any reachable session ends in a loss.
\<close>

theorem zero_guesses_never_lost:
  "play lines len_answer (Some 0) inputs \<noteq> Inr (Lost, st) \<and>
   play_loop (new_session ws 0) inputs \<noteq> Inr (Lost, st) \<and>
   (reachable (new_session ws 0) h st' \<longrightarrow>
      nguesses_left st' = - int (length (filter (\<lambda>(ltr, f_idxs, out). out = Miss) h)) \<and>
      (\<forall>(ltr, f_idxs, out) \<in> set h. out \<noteq> Lost))"
proof (intro conjI impI)
  show "play lines len_answer (Some 0) inputs \<noteq> Inr (Lost, st)"
    by (cases "get_words lines len_answer")
      (simp_all add: play_def prompt_int_def play_loop_below_one new_session_def)
  show "play_loop (new_session ws 0) inputs \<noteq> Inr (Lost, st)"
    by (simp add: play_loop_below_one new_session_def)
  assume r: "reachable (new_session ws 0) h st'"
  from reachable_below_one [OF r]
  show "nguesses_left st' = - int (length (filter (\<lambda>(ltr, f_idxs, out). out = Miss) h))"
    and "\<forall>(ltr, f_idxs, out) \<in> set h. out \<noteq> Lost"
    by (simp_all add: new_session_def)
qed

theorem zero_guesses_never_lost_witness:
  "reachable (new_session [''cat'', ''dog''] 0) [(''a'', [], Miss)]
     \<lparr>words = [''dog''], nguesses_left = - 1, guessed_letters = {''a''}\<rparr> \<and>
   play [''cat'', ''dog''] None (Some 0) [(''A'', 0), (''d'', 0), (''o'', 0), (''g'', 0)] =
     Inr (Won, \<lparr>words = [''dog''], nguesses_left = - 1,
                guessed_letters = {''g'', ''o'', ''d'', ''a''}\<rparr>) \<and>
   play [''cat'', ''dog''] None (Some 0) [(''A'', 0), (''d'', 0), (''o'', 0), (''g'', 0)] \<noteq>
     Inr (Lost, \<lparr>words = [''dog''], nguesses_left = 0,
                guessed_letters = {''g'', ''o'', ''d'', ''a''}\<rparr>) \<and>
   nguesses_left \<lparr>words = [''dog''], nguesses_left = - 1, guessed_letters = {''a''}\<rparr> =
     - int (length (filter (\<lambda>(ltr, f_idxs, out). out = Miss) [(''a'', [] :: nat list, Miss)]))"
proof -
  have "play [''cat'', ''dog''] None (Some 0) [(''A'', 0), (''d'', 0), (''o'', 0), (''g'', 0)] =
     Inr (Won, \<lparr>words = [''dog''], nguesses_left = - 1,
                guessed_letters = {''g'', ''o'', ''d'', ''a''}\<rparr>)"
    by (simp add: hangman_defs)
  with zero_guesses_never_lost [of "[''cat'', ''dog'']" None
      "[(''A'', 0), (''d'', 0), (''o'', 0), (''g'', 0)]"
      "\<lparr>words = [''dog''], nguesses_left = 0, guessed_letters = {''g'', ''o'', ''d'', ''a''}\<rparr>"
      "[''cat'', ''dog'']" "[(''a'', [], Miss)]"
      "\<lparr>words = [''dog''], nguesses_left = - 1, guessed_letters = {''a''}\<rparr>"]
    reachable_example_zero
  show ?thesis
    by blast
qed

end
